theory Spec2Isabelle
  imports Main "HOL-Library.AList" "HOL-Library.Multiset"
begin

section \<open>Syntax trees\<close>

text \<open>
  The extractor of \<^verbatim>\<open>fngraph.py\<close> walks a Python syntax tree. It tells nodes apart by
  their class only, so the model keeps the classes the code tests for and sends every other
  class to \<open>Other\<close>. An import carries its aliases, each a name and an optional rename.
\<close>

type_synonym import_name = "string \<times> string option"

datatype kind =
    Module
  | FunctionDef string
  | ClassDef string
  | If_stmt
  | IfExp
  | For
  | While
  | GeneratorExp
  | ListComp
  | DictComp
  | SetComp
  | comprehension
  | Name string
  | Attribute
  | Import "import_name list"
  | ImportFrom "string option" "import_name list"
  | Other

text \<open>
  A node has an identity (Python compares and hashes syntax nodes by identity; the number
  stands for the object's address), a class and its child nodes in the order of
  \<^verbatim>\<open>ast.iter_child_nodes\<close>. A call expression has its callee \<^verbatim>\<open>func\<close> as a field of its
  own, followed by its arguments.
\<close>

datatype node =
    Node nat kind "node list"
  | Call nat node "node list"

fun iter_child_nodes :: "node \<Rightarrow> node list" where
  "iter_child_nodes (Node i k cs) = cs"
| "iter_child_nodes (Call i f as) = f # as"

text \<open>The class tests of the source, \<^verbatim>\<open>isinstance(x, ast.C)\<close>.\<close>

fun is_Name :: "node \<Rightarrow> bool" where
  "is_Name (Node i (Name s) cs) = True"
| "is_Name _ = False"

fun is_Attribute :: "node \<Rightarrow> bool" where
  "is_Attribute (Node i Attribute cs) = True"
| "is_Attribute _ = False"

fun is_FunctionDef :: "node \<Rightarrow> bool" where
  "is_FunctionDef (Node i (FunctionDef s) cs) = True"
| "is_FunctionDef _ = False"

fun is_If_IfExp :: "node \<Rightarrow> bool" where
  "is_If_IfExp (Node i If_stmt cs) = True"
| "is_If_IfExp (Node i IfExp cs) = True"
| "is_If_IfExp _ = False"

fun is_For_While :: "node \<Rightarrow> bool" where
  "is_For_While (Node i For cs) = True"
| "is_For_While (Node i While cs) = True"
| "is_For_While _ = False"

text \<open>
  The attributes \<^verbatim>\<open>.name\<close> (of a function or class definition) and \<^verbatim>\<open>.id\<close> (of a name
  reference). Reading them from a node of another class raises \<^verbatim>\<open>AttributeError\<close> in
  Python: here the result is \<open>None\<close>.
\<close>

fun name_of :: "node \<Rightarrow> string option" where
  "name_of (Node i (FunctionDef s) cs) = Some s"
| "name_of (Node i (ClassDef s) cs) = Some s"
| "name_of _ = None"

fun id_of :: "node \<Rightarrow> string option" where
  "id_of (Node i (Name s) cs) = Some s"
| "id_of _ = None"

section \<open>The extractor: \<^verbatim>\<open>FunctionCounter\<close>\<close>

text \<open>The dataclass \<^verbatim>\<open>Call\<close>: the callee's name node and the two context flags.\<close>

record call =
  obj :: node
  is_conditional :: bool
  is_loop :: bool

text \<open>
  The four dictionaries of a \<^verbatim>\<open>FunctionCounter\<close>. \<open>graph\<close> is iterated by the projection,
  so it keeps its insertion order as an association list; its keys are syntax nodes.
  \<open>imports_d\<close> (the source's \<^verbatim>\<open>imports\<close>) is keyed by a module name, which is \<^verbatim>\<open>None\<close> for a relative
  \<^verbatim>\<open>from . import x\<close>.
\<close>

record counter =
  index :: "string \<rightharpoonup> node"
  graph :: "(node \<times> call list) list"
  imports_d :: "string option \<rightharpoonup> string list"
  aliases :: "string \<rightharpoonup> string"

definition init :: counter where
  "init = \<lparr>index = Map.empty, graph = [], imports_d = Map.empty, aliases = Map.empty\<rparr>"

text \<open>
  \<^verbatim>\<open>self.graph[parent_node].append(c)\<close> on a \<^verbatim>\<open>defaultdict(list)\<close>: a missing key is
  inserted (at the end) with an empty list, then the call is appended to the key's list.
\<close>

definition graph_append :: "node \<Rightarrow> call \<Rightarrow> (node \<times> call list) list \<Rightarrow> (node \<times> call list) list" where
  "graph_append p c g =
     AList.update p ((case map_of g p of None \<Rightarrow> [] | Some cs \<Rightarrow> cs) @ [c]) g"

text \<open>
  \<^verbatim>\<open>_register_calls\<close>. The \<^verbatim>\<open>else\<close> of the source belongs to the test for a call
  expression: a call node is never descended into, whatever its callee is. The loop over the
  children is \<open>register_children\<close>; it first records a child that is a function definition in
  the index, then recurses into the child with the flags its class asks for.
\<close>

fun register_calls :: "node \<Rightarrow> node \<Rightarrow> bool \<Rightarrow> bool \<Rightarrow> counter \<Rightarrow> counter"
  and register_children :: "node list \<Rightarrow> node \<Rightarrow> bool \<Rightarrow> bool \<Rightarrow> counter \<Rightarrow> counter" where
  "register_calls (Call i func as) parent_node c l st =
     (if is_Name func
      then st\<lparr>graph := graph_append parent_node
                 \<lparr>obj = func, is_conditional = c, is_loop = l\<rparr> (graph st)\<rparr>
      else if is_Attribute func then st
      else st)"
| "register_calls (Node i k cs) parent_node c l st = register_children cs parent_node c l st"
| "register_children [] parent_node c l st = st"
| "register_children (child # cs) parent_node c l st =
     (let st1 = (case child of
                   Node j (FunctionDef nm) ks \<Rightarrow> st\<lparr>index := (index st)(nm \<mapsto> child)\<rparr>
                 | _ \<Rightarrow> st);
          st2 = (if is_If_IfExp child then register_calls child parent_node True l st1
                 else if is_For_While child then register_calls child parent_node c True st1
                 else register_calls child parent_node c l st1)
      in register_children cs parent_node c l st2)"

text \<open>The two import visitors, one alias at a time.\<close>

definition truthy :: "string option \<Rightarrow> bool" where
  "truthy a = (case a of None \<Rightarrow> False | Some s \<Rightarrow> s \<noteq> [])"

definition import_alias :: "import_name \<Rightarrow> counter \<Rightarrow> counter" where
  "import_alias a st =
     (let st1 = (if truthy (snd a)
                 then st\<lparr>aliases := (aliases st)(fst a \<mapsto> the (snd a))\<rparr> else st)
      in case imports_d st1 (Some (fst a)) of
           None \<Rightarrow> st1\<lparr>imports_d := (imports_d st1)(Some (fst a) \<mapsto> [])\<rparr>
         | Some ms \<Rightarrow> st1)"

definition import_from_alias :: "string option \<Rightarrow> import_name \<Rightarrow> counter \<Rightarrow> counter" where
  "import_from_alias m a st =
     (let st1 = (if truthy (snd a)
                 then st\<lparr>aliases := (aliases st)(fst a \<mapsto> the (snd a))\<rparr> else st)
      in st1\<lparr>imports_d := (imports_d st1)
                (m \<mapsto> (case imports_d st1 m of None \<Rightarrow> [] | Some ms \<Rightarrow> ms) @ [fst a])\<rparr>)"

text \<open>
  \<^verbatim>\<open>NodeVisitor.visit\<close>: a class with a \<^verbatim>\<open>visit_C\<close> method goes to it, any other class
  to \<^verbatim>\<open>generic_visit\<close>, which visits the children in order. Only the import visitors
  call \<^verbatim>\<open>generic_visit\<close> themselves; the visitors of definitions, loops and comprehensions
  hand the whole subtree to \<open>register_calls\<close> and do not visit below.
\<close>

fun visit :: "node \<Rightarrow> counter \<Rightarrow> counter"
  and generic_visit :: "node list \<Rightarrow> counter \<Rightarrow> counter" where
  "visit (Call i func as) st = generic_visit (func # as) st"
| "visit (Node i k cs) st =
     (case k of
        Import names \<Rightarrow> generic_visit cs (fold import_alias names st)
      | ImportFrom m names \<Rightarrow> generic_visit cs (fold (import_from_alias m) names st)
      | FunctionDef nm \<Rightarrow>
          register_calls (Node i k cs) (Node i k cs) False False
            (st\<lparr>index := (index st)(nm \<mapsto> Node i k cs)\<rparr>)
      | ClassDef nm \<Rightarrow>
          register_calls (Node i k cs) (Node i k cs) False False
            (st\<lparr>index := (index st)(nm \<mapsto> Node i k cs)\<rparr>)
      | For \<Rightarrow> register_calls (Node i k cs) (Node i k cs) False True st
      | While \<Rightarrow> register_calls (Node i k cs) (Node i k cs) False True st
      | GeneratorExp \<Rightarrow> register_calls (Node i k cs) (Node i k cs) False True st
      | ListComp \<Rightarrow> register_calls (Node i k cs) (Node i k cs) False True st
      | DictComp \<Rightarrow> register_calls (Node i k cs) (Node i k cs) False True st
      | SetComp \<Rightarrow> register_calls (Node i k cs) (Node i k cs) False True st
      | comprehension \<Rightarrow> register_calls (Node i k cs) (Node i k cs) False True st
      | _ \<Rightarrow> generic_visit cs st)"
| "generic_visit [] st = st"
| "generic_visit (child # cs) st = generic_visit cs (visit child st)"

text \<open>\<^verbatim>\<open>read_file\<close> after parsing: visit the tree with a fresh counter.\<close>

definition read_file :: "node \<Rightarrow> counter" where
  "read_file t = visit t init"

text \<open>
  The property \<^verbatim>\<open>pretty_calls\<close>: for every owner its name, with the names it calls.
  \<^verbatim>\<open>rv[f.name] = list()\<close> reads \<^verbatim>\<open>.name\<close> from the owner whatever its class is.
\<close>

datatype error = AttributeError | KeyError | TypeError | RecursionError

fun pretty_names :: "call list \<Rightarrow> error + string list" where
  "pretty_names [] = Inr []"
| "pretty_names (v1 # v) =
     (case id_of (obj v1) of
        None \<Rightarrow> Inl AttributeError
      | Some n \<Rightarrow> (case pretty_names v of Inl e \<Rightarrow> Inl e | Inr ns \<Rightarrow> Inr (n # ns)))"

fun pretty_items :: "(node \<times> call list) list \<Rightarrow> (string \<times> string list) list
    \<Rightarrow> error + (string \<times> string list) list" where
  "pretty_items [] rv = Inr rv"
| "pretty_items ((f, v) # items) rv =
     (case name_of f of
        None \<Rightarrow> Inl AttributeError
      | Some nm \<Rightarrow>
          (case pretty_names v of
             Inl e \<Rightarrow> Inl e
           | Inr ns \<Rightarrow> pretty_items items (AList.update nm ns rv)))"

definition pretty_calls :: "counter \<Rightarrow> error + (string \<times> string list) list" where
  "pretty_calls fnc = pretty_items (graph fnc) []"

section \<open>The graph library: \<^verbatim>\<open>networkx.MultiDiGraph\<close>\<close>

text \<open>
  The projection builds a \<^verbatim>\<open>networkx.MultiDiGraph\<close>. The library is not part of the
  repository; the model follows the library's data structure, three nested insertion-ordered
  dictionaries: a node to its successors, a successor to the keys of the parallel edges, a
  key to the edge's attributes. The node dictionary has the same keys in the same order, so
  it is not kept apart. The only attributes the repository ever stores are the two flags
  \<^verbatim>\<open>in_conditional\<close> and \<^verbatim>\<open>in_loop\<close>, always both.
\<close>

type_synonym attrs = "bool \<times> bool"
type_synonym keydict = "(nat \<times> attrs) list"
type_synonym multidigraph = "(string \<times> (string \<times> keydict) list) list"
type_synonym edge = "string \<times> string \<times> nat \<times> attrs"

definition add_node :: "string \<Rightarrow> multidigraph \<Rightarrow> multidigraph" where
  "add_node u G = (if u \<in> fst ` set G then G else G @ [(u, [])])"

text \<open>
  \<^verbatim>\<open>new_edge_key\<close>: the number of edges between the two nodes, counted up while it is a
  key in use.
\<close>

function new_key_loop :: "nat \<Rightarrow> keydict \<Rightarrow> nat" where
  "new_key_loop key keydict =
     (if key \<in> fst ` set keydict then new_key_loop (key + 1) keydict else key)"
  by pat_completeness auto
termination
proof (relation "measure (\<lambda>(key, keydict). Suc (Max (insert 0 (fst ` set keydict))) - key)")
  show "wf (measure (\<lambda>(key, keydict). Suc (Max (insert 0 (fst ` set keydict))) - key))"
    by simp
next
  fix key :: nat and keydict :: keydict
  assume "key \<in> fst ` set keydict"
  then have "key \<le> Max (insert 0 (fst ` set keydict))"
    by (intro Max_ge) auto
  then show "((key + 1, keydict), (key, keydict))
      \<in> measure (\<lambda>(key, keydict). Suc (Max (insert 0 (fst ` set keydict))) - key)"
    by simp
qed

declare new_key_loop.simps [simp del]

definition new_edge_key :: "string \<Rightarrow> string \<Rightarrow> multidigraph \<Rightarrow> nat" where
  "new_edge_key u v G =
     (case map_of G u of
        None \<Rightarrow> 0
      | Some nbrs \<Rightarrow>
          (case map_of nbrs v of
             None \<Rightarrow> 0
           | Some keydict \<Rightarrow> new_key_loop (length keydict) keydict))"

text \<open>
  \<^verbatim>\<open>add_edge(u, v, key, **attr)\<close>: both nodes are added when missing, a missing key is
  chosen by \<open>new_edge_key\<close>, and the attributes are stored under the key: a key already
  present keeps its place and has its attributes overwritten.
\<close>

definition add_edge :: "string \<Rightarrow> string \<Rightarrow> nat option \<Rightarrow> attrs \<Rightarrow> multidigraph \<Rightarrow> multidigraph" where
  "add_edge u v key attr G =
     (let G1 = add_node u G;
          G2 = add_node v G1;
          k = (case key of None \<Rightarrow> new_edge_key u v G2 | Some k \<Rightarrow> k);
          nbrs = (case map_of G2 u of None \<Rightarrow> [] | Some nbrs \<Rightarrow> nbrs);
          keydict = (case map_of nbrs v of None \<Rightarrow> [] | Some keydict \<Rightarrow> keydict)
      in AList.update u (AList.update v (AList.update k attr keydict) nbrs) G2)"

text \<open>The iteration orders of \<^verbatim>\<open>G.nodes\<close> and \<^verbatim>\<open>G.edges(keys=True, data=True)\<close>.\<close>

definition nodes :: "multidigraph \<Rightarrow> string list" where
  "nodes G = map fst G"

definition edges :: "multidigraph \<Rightarrow> edge list" where
  "edges G =
     concat (map (\<lambda>(u, nbrs).
       concat (map (\<lambda>(v, keydict). map (\<lambda>(k, d). (u, v, k, d)) keydict) nbrs)) G)"

text \<open>
  \<^verbatim>\<open>networkx.compose(G, H)\<close>: a new graph receives the nodes and the keyed edges of
  \<open>G\<close>, then those of \<open>H\<close>. An edge is known by its end nodes and its key.
\<close>

definition add_edges_from :: "edge list \<Rightarrow> multidigraph \<Rightarrow> multidigraph" where
  "add_edges_from es G = fold (\<lambda>(u, v, k, d). add_edge u v (Some k) d) es G"

definition compose :: "multidigraph \<Rightarrow> multidigraph \<Rightarrow> multidigraph" where
  "compose G H =
     add_edges_from (edges H) (fold add_node (nodes H)
       (add_edges_from (edges G) (fold add_node (nodes G) [])))"

section \<open>Projection, colours and merging\<close>

text \<open>
  \<^verbatim>\<open>to_networkx\<close>. The source computes \<^verbatim>\<open>_builtins = set(dir(__builtins__))\<close> from the
  global \<^verbatim>\<open>__builtins__\<close>, which the interpreter binds, not the repository. The functions
  below take the computed set as their first argument, so that what holds for every set
  holds for the set the interpreter computes; \<open>imported_builtins\<close> further down is that set
  in the imported module. The test of the source reads \<^verbatim>\<open>e.obj.id\<close> only when filtering is
  on; adding the edge reads \<^verbatim>\<open>v1.name\<close>, then \<^verbatim>\<open>e.obj.id\<close>.
\<close>

definition add_call :: "node \<Rightarrow> call \<Rightarrow> multidigraph \<Rightarrow> error + multidigraph" where
  "add_call v1 e G =
     (case name_of v1 of
        None \<Rightarrow> Inl AttributeError
      | Some u \<Rightarrow>
          (case id_of (obj e) of
             None \<Rightarrow> Inl AttributeError
           | Some n \<Rightarrow> Inr (add_edge u n None (is_conditional e, is_loop e) G)))"

fun project_calls :: "string set \<Rightarrow> bool \<Rightarrow> node \<Rightarrow> call list \<Rightarrow> multidigraph
    \<Rightarrow> error + multidigraph" where
  "project_calls builtins filter_builtins v1 [] G = Inr G"
| "project_calls builtins filter_builtins v1 (e # v2) G =
     (if filter_builtins
      then (case id_of (obj e) of
              None \<Rightarrow> Inl AttributeError
            | Some n \<Rightarrow>
                if n \<notin> builtins
                then (case add_call v1 e G of
                        Inl err \<Rightarrow> Inl err
                      | Inr G' \<Rightarrow> project_calls builtins filter_builtins v1 v2 G')
                else project_calls builtins filter_builtins v1 v2 G)
      else (case add_call v1 e G of
              Inl err \<Rightarrow> Inl err
            | Inr G' \<Rightarrow> project_calls builtins filter_builtins v1 v2 G'))"

fun project_items :: "string set \<Rightarrow> bool \<Rightarrow> (node \<times> call list) list \<Rightarrow> multidigraph
    \<Rightarrow> error + multidigraph" where
  "project_items builtins filter_builtins [] G = Inr G"
| "project_items builtins filter_builtins ((v1, v2) # items) G =
     (case project_calls builtins filter_builtins v1 v2 G of
        Inl err \<Rightarrow> Inl err
      | Inr G' \<Rightarrow> project_items builtins filter_builtins items G')"

definition to_networkx :: "string set \<Rightarrow> counter \<Rightarrow> bool \<Rightarrow> error + multidigraph" where
  "to_networkx builtins fnc filter_builtins =
     project_items builtins filter_builtins (graph fnc) []"

text \<open>
  The value of \<^verbatim>\<open>set(dir(__builtins__))\<close> where the functions of the file run, in the
  imported module: there CPython binds \<^verbatim>\<open>__builtins__\<close> to the dictionary of the builtins
  module, and \<^verbatim>\<open>dir\<close> of a dictionary lists the attributes of the dictionary type, not
  its keys.
\<close>

definition dict_attribute_names :: "string list" where
  "dict_attribute_names =
    [''__class__'', ''__class_getitem__'', ''__contains__'', ''__delattr__'',
     ''__delitem__'', ''__dir__'', ''__doc__'', ''__eq__'', ''__format__'', ''__ge__'',
     ''__getattribute__'', ''__getitem__'', ''__getstate__'', ''__gt__'', ''__hash__'',
     ''__init__'', ''__init_subclass__'', ''__ior__'', ''__iter__'', ''__le__'',
     ''__len__'', ''__lt__'', ''__ne__'', ''__new__'', ''__or__'', ''__reduce__'',
     ''__reduce_ex__'', ''__repr__'', ''__reversed__'', ''__ror__'', ''__setattr__'',
     ''__setitem__'', ''__sizeof__'', ''__str__'', ''__subclasshook__'', ''clear'',
     ''copy'', ''fromkeys'', ''get'', ''items'', ''keys'', ''pop'', ''popitem'',
     ''setdefault'', ''update'', ''values'']"

definition imported_builtins :: "string set" where
  "imported_builtins = set dict_attribute_names"

text \<open>
  \<^verbatim>\<open>color_vector\<close>: one colour for each edge, in the order the graph iterates its edges;
  \<^verbatim>\<open>colormap[key]\<close> raises \<^verbatim>\<open>KeyError\<close> on a missing pair of flags.
\<close>

fun color_loop :: "edge list \<Rightarrow> (attrs \<rightharpoonup> 'c) \<Rightarrow> 'c list \<Rightarrow> error + 'c list" where
  "color_loop [] colormap cl = Inr cl"
| "color_loop ((u, v, k, data) # es) colormap cl =
     (case colormap data of
        None \<Rightarrow> Inl KeyError
      | Some col \<Rightarrow> color_loop es colormap (cl @ [col]))"

definition color_vector :: "multidigraph \<Rightarrow> (attrs \<rightharpoonup> 'c) \<Rightarrow> error + 'c list" where
  "color_vector G colormap = color_loop (edges G) colormap []"

text \<open>
  \<^verbatim>\<open>merge_networkx\<close>: \<^verbatim>\<open>reduce\<close> without a start value takes the first graph and composes
  the others onto it from left to right; it raises \<^verbatim>\<open>TypeError\<close> on an empty sequence.
  The graphs come from a generator, so each counter is projected when its turn comes.
\<close>

fun reduce_compose :: "string set \<Rightarrow> bool \<Rightarrow> multidigraph \<Rightarrow> counter list
    \<Rightarrow> error + multidigraph" where
  "reduce_compose builtins filter_builtins acc [] = Inr acc"
| "reduce_compose builtins filter_builtins acc (f # fncs) =
     (case to_networkx builtins f filter_builtins of
        Inl err \<Rightarrow> Inl err
      | Inr H \<Rightarrow> reduce_compose builtins filter_builtins (compose acc H) fncs)"

definition merge_networkx :: "string set \<Rightarrow> counter list \<Rightarrow> bool \<Rightarrow> error + multidigraph" where
  "merge_networkx builtins fncs filter_builtins =
     (case fncs of
        [] \<Rightarrow> Inl TypeError
      | f # rest \<Rightarrow>
          (case to_networkx builtins f filter_builtins of
             Inl err \<Rightarrow> Inl err
           | Inr G \<Rightarrow> reduce_compose builtins filter_builtins G rest))"

section \<open>What a registration pass reaches\<close>

text \<open>
  The specification side. \<open>reach n\<close> lists, in source order, every node that lies in the
  subtree of \<open>n\<close> with no call expression strictly between it and \<open>n\<close>, together with its
  ancestors below \<open>n\<close> (from the child of \<open>n\<close> down to the node itself).
\<close>

fun reach :: "node \<Rightarrow> (node list \<times> node) list" where
  "reach (Call i f as) = [([], Call i f as)]"
| "reach (Node i k cs) =
     ([], Node i k cs) # concat (map (\<lambda>ch. map (\<lambda>(anc, m). (ch # anc, m)) (reach ch)) cs)"

text \<open>
  The edge of a reached node: a call of a plain name gives one edge; its flag is set when it
  was set at the start or some ancestor below the start is a conditional (a loop).
\<close>

fun edge_at :: "bool \<Rightarrow> bool \<Rightarrow> node list \<times> node \<Rightarrow> call list" where
  "edge_at c l (anc, Call i f as) =
     (if is_Name f
      then [\<lparr>obj = f, is_conditional = (c \<or> list_ex is_If_IfExp anc),
             is_loop = (l \<or> list_ex is_For_While anc)\<rparr>]
      else [])"
| "edge_at c l (anc, Node i k cs) = []"

definition call_edges :: "node \<Rightarrow> bool \<Rightarrow> bool \<Rightarrow> call list" where
  "call_edges n c l = concat (map (edge_at c l) (reach n))"

text \<open>The function definitions reached strictly below the start, with their names.\<close>

fun def_at :: "node list \<times> node \<Rightarrow> (string \<times> node) list" where
  "def_at (anc, Node j (FunctionDef nm) ks) =
     (if anc = [] then [] else [(nm, Node j (FunctionDef nm) ks)])"
| "def_at (anc, m) = []"

definition nested_defs :: "node \<Rightarrow> (string \<times> node) list" where
  "nested_defs n = concat (map def_at (reach n))"

text \<open>Writing a list of definitions into the index one after the other.\<close>

definition index_all :: "(string \<times> node) list \<Rightarrow> (string \<rightharpoonup> node) \<Rightarrow> (string \<rightharpoonup> node)" where
  "index_all ds ix = fold (\<lambda>(nm, d) ix. ix(nm \<mapsto> d)) ds ix"

text \<open>The edge list of an owner, empty for a node that is no key of the graph.\<close>

definition calls_of :: "(node \<times> call list) list \<Rightarrow> node \<Rightarrow> call list" where
  "calls_of g p = (case map_of g p of None \<Rightarrow> [] | Some cs \<Rightarrow> cs)"

text \<open>The edges that one registration pass appends to the list of its owner.\<close>

definition recorded :: "node \<Rightarrow> node \<Rightarrow> bool \<Rightarrow> bool \<Rightarrow> counter \<Rightarrow> call list" where
  "recorded n p c l st =
     drop (length (calls_of (graph st) p)) (calls_of (graph (register_calls n p c l st)) p)"

text \<open>An edge of the multigraph without its key: source, target and flags.\<close>

fun strip :: "edge \<Rightarrow> string \<times> string \<times> attrs" where
  "strip (u, v, k, d) = (u, v, d)"

text \<open>The edge a call gives in the projection.\<close>

definition call_triple :: "node \<Rightarrow> call \<Rightarrow> string \<times> string \<times> attrs" where
  "call_triple v1 e = (the (name_of v1), the (id_of (obj e)), (is_conditional e, is_loop e))"

text \<open>The flags of an edge, and the edges that leave one node.\<close>

fun flags_of :: "edge \<Rightarrow> attrs" where
  "flags_of (u, v, k, d) = d"

definition row :: "string \<Rightarrow> (string \<times> keydict) list \<Rightarrow> edge list" where
  "row u nbrs = concat (map (\<lambda>(v, keydict). map (\<lambda>(k, d). (u, v, k, d)) keydict) nbrs)"

definition keep :: "string set \<Rightarrow> bool \<Rightarrow> call \<Rightarrow> bool" where
  "keep builtins filter_builtins e = (if filter_builtins then the (id_of (obj e)) \<notin> builtins else True)"

section \<open>Example trees\<close>

text \<open>
  Small syntax trees used to run the definitions: a function with a nested function, a call
  on the result of a call, a branch around a loop, a class nested in a function, and a loop
  at the top of a module.
\<close>

definition ex_inner :: node where
  "ex_inner = Node 2 (FunctionDef ''inner'')
     [Node 3 Other [], Node 4 Other [Call 5 (Node 6 (Name ''call_a'') []) []]]"

definition ex_outer :: node where
  "ex_outer = Node 1 (FunctionDef ''outer'')
     [Node 7 Other [], ex_inner, Node 8 Other [Call 9 (Node 10 (Name ''call_b'') []) []]]"

definition ex_call_on_call :: node where
  "ex_call_on_call = Call 4 (Call 5 (Node 6 (Name ''f'') []) []) [Call 7 (Node 8 (Name ''g'') []) []]"

definition ex_branch_loop :: node where
  "ex_branch_loop = Node 1 (FunctionDef ''f'')
     [Node 2 Other [],
      Node 3 If_stmt
        [Node 4 (Name ''cond'') [],
         Node 5 For
           [Node 6 (Name ''x'') [], Node 7 (Name ''xs'') [],
            Node 8 Other [Call 9 (Node 10 (Name ''g'') []) []]]],
      Node 11 Other [Call 12 (Node 13 (Name ''h'') []) []]]"

definition ex_nested_class :: node where
  "ex_nested_class = Node 1 (FunctionDef ''f'') [Node 2 Other [], Node 3 (ClassDef ''C'') [Node 4 Other []]]"

definition ex_loop :: "kind \<Rightarrow> node" where
  "ex_loop k = Node 1 k
     [Node 2 (Name ''x'') [], Node 3 (Name ''xs'') [],
      Node 4 Other [Call 5 (Node 6 (Name ''g'') []) []]]"

definition ex_counter :: counter where
  "ex_counter = init\<lparr>graph :=
     [(Node 1 (FunctionDef ''f'') [],
       [\<lparr>obj = Node 2 (Name ''g'') [], is_conditional = False, is_loop = False\<rparr>,
        \<lparr>obj = Node 3 (Name ''print'') [], is_conditional = False, is_loop = True\<rparr>,
        \<lparr>obj = Node 4 (Name ''g'') [], is_conditional = True, is_loop = False\<rparr>])]\<rparr>"


text \<open>
  \<^verbatim>\<open>G[u][v][key]\<close>: the attributes of the edge with these end nodes and this key, if the
  graph has it.
\<close>

definition edge_data :: "multidigraph \<Rightarrow> string \<times> string \<times> nat \<Rightarrow> attrs option" where
  "edge_data G = (\<lambda>(u, v, k).
     case map_of G u of
       None \<Rightarrow> None
     | Some nbrs \<Rightarrow> (case map_of nbrs v of None \<Rightarrow> None | Some keydict \<Rightarrow> map_of keydict k))"

text \<open>
  The shape of a graph that the library builds: no dictionary holds a key twice, and every
  successor is a node.
\<close>

definition wf_nbrs :: "string set \<Rightarrow> (string \<times> keydict) list \<Rightarrow> bool" where
  "wf_nbrs N nbrs =
     (distinct (map fst nbrs) \<and> list_all (\<lambda>(v, kd). v \<in> N \<and> distinct (map fst kd)) nbrs)"

definition wf_graph :: "multidigraph \<Rightarrow> bool" where
  "wf_graph G = (distinct (map fst G) \<and> list_all (\<lambda>(u, nbrs). wf_nbrs (fst ` set G) nbrs) G)"

fun edge_key :: "edge \<Rightarrow> string \<times> string \<times> nat" where
  "edge_key (u, v, k, d) = (u, v, k)"

definition ex_unit_plain :: node where
  "ex_unit_plain = Node 0 Module
     [Node 1 (FunctionDef ''a'')
        [Node 2 Other [], Node 3 Other [Call 4 (Node 5 (Name ''b'') []) []]]]"

definition ex_unit_branch :: node where
  "ex_unit_branch = Node 10 Module
     [Node 11 (FunctionDef ''a'')
        [Node 12 Other [],
         Node 13 If_stmt
           [Node 14 (Name ''x'') [], Node 15 Other [Call 16 (Node 17 (Name ''b'') []) []]]]]"




section \<open>The extractor under the interpreter's recursion limit\<close>








section \<open>Facts about the registration pass\<close>

lemma not_If_and_For: "is_If_IfExp ch \<Longrightarrow> \<not> is_For_While ch"
  by (cases ch rule: is_If_IfExp.cases) simp_all

lemma edge_at_push:
  "edge_at c l (ch # anc, m) = edge_at (c \<or> is_If_IfExp ch) (l \<or> is_For_While ch) (anc, m)"
  by (cases m) auto

lemma call_edges_Call:
  "call_edges (Call i f as) c l =
     (if is_Name f then [\<lparr>obj = f, is_conditional = c, is_loop = l\<rparr>] else [])"
  by (simp add: call_edges_def)

lemma call_edges_Node:
  "call_edges (Node i k cs) c l =
     concat (map (\<lambda>ch. call_edges ch (c \<or> is_If_IfExp ch) (l \<or> is_For_While ch)) cs)"
proof -
  have "concat (map (edge_at c l) (map (\<lambda>(anc, m). (ch # anc, m)) (reach ch))) =
        call_edges ch (c \<or> is_If_IfExp ch) (l \<or> is_For_While ch)" for ch
    unfolding call_edges_def
    by (rule arg_cong [where f = concat]) (auto simp: edge_at_push)
  then have "concat (map (edge_at c l)
        (concat (map (\<lambda>ch. map (\<lambda>(anc, m). (ch # anc, m)) (reach ch)) cs))) =
     concat (map (\<lambda>ch. call_edges ch (c \<or> is_If_IfExp ch) (l \<or> is_For_While ch)) cs)"
    by (induction cs) simp_all
  then show ?thesis
    by (simp add: call_edges_def)
qed

lemma def_at_push: "anc \<noteq> [] \<Longrightarrow> def_at (ch # anc, m) = def_at (anc, m)"
  by (cases "(anc, m)" rule: def_at.cases) simp_all

lemma nested_defs_Call: "nested_defs (Call i f as) = []"
  by (simp add: nested_defs_def)

lemma def_at_root: "def_at ([], m) = []"
  by (cases "([] :: node list, m)" rule: def_at.cases) simp_all

lemma nested_defs_push:
  "concat (map def_at (map (\<lambda>(anc, m). (ch # anc, m)) (reach ch))) =
     def_at ([ch], ch) @ nested_defs ch"
proof (cases ch)
  case (Call i f as)
  then show ?thesis by (simp add: nested_defs_def)
next
  case (Node i k cs)
  define rest where "rest = concat (map (\<lambda>c. map (\<lambda>(anc, m). (c # anc, m)) (reach c)) cs)"
  have ne: "\<forall>x \<in> set rest. fst x \<noteq> []"
    by (auto simp: rest_def)
  have "map def_at (map (\<lambda>(anc, m). (ch # anc, m)) rest) = map def_at rest"
    using ne by (auto simp: def_at_push)
  then have "concat (map def_at (map (\<lambda>(anc, m). (ch # anc, m)) rest)) = concat (map def_at rest)"
    by (simp only:)
  then show ?thesis
    using Node by (simp add: nested_defs_def rest_def [symmetric] def_at_root del: map_map)
qed

lemma nested_defs_Node:
  "nested_defs (Node i k cs) = concat (map (\<lambda>ch. def_at ([ch], ch) @ nested_defs ch) cs)"
proof -
  have "concat (map def_at
        (concat (map (\<lambda>ch. map (\<lambda>(anc, m). (ch # anc, m)) (reach ch)) cs))) =
     concat (map (\<lambda>ch. def_at ([ch], ch) @ nested_defs ch) cs)"
    by (induction cs) (simp_all add: nested_defs_push del: map_map)
  then show ?thesis
    by (simp add: nested_defs_def def_at_root)
qed

lemma index_all_append: "index_all (xs @ ys) ix = index_all ys (index_all xs ix)"
  by (simp add: index_all_def)

lemma index_child:
  "(case child of
      Node j (FunctionDef nm) ks \<Rightarrow> st\<lparr>index := (index st)(nm \<mapsto> child)\<rparr>
    | _ \<Rightarrow> st) = st\<lparr>index := index_all (def_at ([child], child)) (index st)\<rparr>"
  by (cases "([child], child)" rule: def_at.cases) (simp_all add: index_all_def)

lemma register_calls_eq:
  "register_calls n p c l st =
     st\<lparr>index := index_all (nested_defs n) (index st),
        graph := fold (graph_append p) (call_edges n c l) (graph st)\<rparr>"
  "register_children cs p c l st =
     st\<lparr>index := index_all (concat (map (\<lambda>ch. def_at ([ch], ch) @ nested_defs ch) cs)) (index st),
        graph := fold (graph_append p)
          (concat (map (\<lambda>ch. call_edges ch (c \<or> is_If_IfExp ch) (l \<or> is_For_While ch)) cs))
          (graph st)\<rparr>"
proof (induction n p c l st and cs p c l st rule: register_calls_register_children.induct)
  case (1 i func as parent_node c l st)
  then show ?case by (simp add: call_edges_Call nested_defs_Call index_all_def)
next
  case (2 i k cs parent_node c l st)
  then show ?case by (simp add: call_edges_Node nested_defs_Node)
next
  case (3 parent_node c l st)
  then show ?case by (simp add: index_all_def)
next
  case (4 child cs parent_node c l st)
  show ?case
    using 4
    by (auto simp add: Let_def index_child index_all_append dest: not_If_and_For)
qed

lemma calls_of_append_same:
  "calls_of (graph_append p e g) p = calls_of g p @ [e]"
  by (simp add: calls_of_def graph_append_def update_conv')

lemma calls_of_append_other:
  "q \<noteq> p \<Longrightarrow> calls_of (graph_append p e g) q = calls_of g q"
  by (simp add: calls_of_def graph_append_def update_conv')

lemma calls_of_fold_same:
  "calls_of (fold (graph_append p) es g) p = calls_of g p @ es"
  by (induction es arbitrary: g) (simp_all add: calls_of_append_same)

lemma calls_of_fold_other:
  "q \<noteq> p \<Longrightarrow> calls_of (fold (graph_append p) es g) q = calls_of g q"
  by (induction es arbitrary: g) (simp_all add: calls_of_append_other)

lemma recorded_eq: "recorded n p c l st = call_edges n c l"
  by (simp add: recorded_def register_calls_eq calls_of_fold_same)

lemma visit_def_eq:
  assumes "k = FunctionDef nm \<or> k = ClassDef nm"
  shows "visit (Node i k cs) st =
     st\<lparr>index := index_all (nested_defs (Node i k cs)) ((index st)(nm \<mapsto> Node i k cs)),
        graph := fold (graph_append (Node i k cs)) (call_edges (Node i k cs) False False) (graph st)\<rparr>"
  using assms by (auto simp: register_calls_eq(1))

lemma reach_trans:
  "(anc, Node j k body) \<in> set (reach n) \<Longrightarrow> (anc2, m) \<in> set (reach (Node j k body))
   \<Longrightarrow> (anc @ anc2, m) \<in> set (reach n)"
proof (induction n arbitrary: anc)
  case (Node i k' cs)
  show ?case
  proof (cases "anc = []")
    case True
    with Node.prems show ?thesis by auto
  next
    case False
    with Node.prems obtain ch anc' where ch: "ch \<in> set cs" "anc = ch # anc'"
      "(anc', Node j k body) \<in> set (reach ch)"
      by auto
    from Node.IH [OF ch(1) ch(3) Node.prems(2)] ch(1,2)
    show ?thesis by force
  qed
next
  case (Call i f as)
  then show ?case by simp
qed

lemma reach_size:
  "(anc, m) \<in> set (reach n) \<Longrightarrow> anc \<noteq> [] \<Longrightarrow> size m < size n"
proof (induction n arbitrary: anc)
  case (Node i k cs)
  then obtain ch anc' where ch: "ch \<in> set cs" "anc = ch # anc'" "(anc', m) \<in> set (reach ch)"
    by auto
  have "size m \<le> size ch"
  proof (cases "anc' = []")
    case True
    with ch(3) show ?thesis by (cases ch) auto
  next
    case False
    with Node.IH [OF ch(1) ch(3)] show ?thesis by simp
  qed
  moreover have "size ch < size (Node i k cs)"
    using ch(1) by (simp add: size_list_estimation' less_Suc_eq_le)
  ultimately show ?case by simp
next
  case (Call i f as)
  then show ?case by simp
qed

lemma edge_in_call_edges:
  "(anc, Call k f as) \<in> set (reach n) \<Longrightarrow> is_Name f
   \<Longrightarrow> \<lparr>obj = f, is_conditional = (c \<or> list_ex is_If_IfExp anc),
        is_loop = (l \<or> list_ex is_For_While anc)\<rparr> \<in> set (call_edges n c l)"
  by (force simp: call_edges_def)


lemma index_all_dom: "dom (index_all ds ix) = dom ix \<union> fst ` set ds"
  unfolding index_all_def by (induction ds arbitrary: ix) auto

lemma index_all_last:
  "nm \<notin> fst ` set ds' \<Longrightarrow> index_all (ds @ (nm, d) # ds') ix nm = Some d"
  unfolding index_all_def by (induction ds' arbitrary: ix ds rule: rev_induct) auto

lemma index_all_absent: "nm \<notin> fst ` set ds \<Longrightarrow> index_all ds ix nm = ix nm"
  unfolding index_all_def by (induction ds arbitrary: ix) auto

section \<open>Nested definitions\<close>

text \<open>
  Claim C1, as the code has it. When a function definition \<open>inner\<close> is reached by the
  registration pass of a function definition \<open>outer\<close>, and a call of a plain name is reached
  inside \<open>inner\<close>, visiting \<open>outer\<close> records that call in the edge list of \<open>outer\<close>, leaves
  the edge list of \<open>inner\<close> as it was, and records \<open>inner\<close> in the index under its name. The
  visitor of a definition does not visit below it, so \<open>inner\<close> is never the root of a pass of
  its own.
\<close>

theorem nested_call_owned_by_outer:
  assumes "(anc, Node j (FunctionDef nm) body) \<in> set (reach (Node i (FunctionDef onm) kids))"
    and "anc \<noteq> []"
    and "(anc2, Call k f as) \<in> set (reach (Node j (FunctionDef nm) body))"
    and "is_Name f"
  shows "f \<in> obj ` set (calls_of (graph (visit (Node i (FunctionDef onm) kids) st))
                           (Node i (FunctionDef onm) kids))
    \<and> calls_of (graph (visit (Node i (FunctionDef onm) kids) st)) (Node j (FunctionDef nm) body)
        = calls_of (graph st) (Node j (FunctionDef nm) body)
    \<and> nm \<in> dom (index (visit (Node i (FunctionDef onm) kids) st))"
proof -
  let ?outer = "Node i (FunctionDef onm) kids" and ?inner = "Node j (FunctionDef nm) body"
  have v: "visit ?outer st =
     st\<lparr>index := index_all (nested_defs ?outer) ((index st)(onm \<mapsto> ?outer)),
        graph := fold (graph_append ?outer) (call_edges ?outer False False) (graph st)\<rparr>"
    by (rule visit_def_eq) simp
  have "(anc @ anc2, Call k f as) \<in> set (reach ?outer)"
    using assms(1,3) by (rule reach_trans)
  from edge_in_call_edges [OF this assms(4), of False False]
  have "f \<in> obj ` set (call_edges ?outer False False)"
    by force
  then have a: "f \<in> obj ` set (calls_of (graph (visit ?outer st)) ?outer)"
    unfolding v by (auto simp add: calls_of_fold_same)
  have "size ?inner < size ?outer"
    using assms(1,2) by (rule reach_size)
  then have "?inner \<noteq> ?outer" by auto
  then have b: "calls_of (graph (visit ?outer st)) ?inner = calls_of (graph st) ?inner"
    unfolding v by (simp add: calls_of_fold_other)
  have "(nm, ?inner) \<in> set (nested_defs ?outer)"
    using assms(1,2) by (force simp: nested_defs_def)
  then have "nm \<in> fst ` set (nested_defs ?outer)"
    by force
  then have c: "nm \<in> dom (index (visit ?outer st))"
    unfolding v by (simp add: index_all_dom)
  from a b c show ?thesis by blast
qed

theorem nested_call_owned_by_outer_witness:
  "Node 6 (Name ''call_a'') [] \<in> obj ` set (calls_of (graph (visit ex_outer init)) ex_outer)
   \<and> calls_of (graph (visit ex_outer init)) ex_inner = calls_of (graph init) ex_inner
   \<and> ''inner'' \<in> dom (index (visit ex_outer init))"
  using nested_call_owned_by_outer [of "[ex_inner]" 2 "''inner''"
      "[Node 3 Other [], Node 4 Other [Call 5 (Node 6 (Name ''call_a'') []) []]]"
      1 "''outer''"
      "[Node 7 Other [], ex_inner, Node 8 Other [Call 9 (Node 10 (Name ''call_b'') []) []]]"
      "[Node 4 Other [Call 5 (Node 6 (Name ''call_a'') []) []],
        Call 5 (Node 6 (Name ''call_a'') []) []]"
      5 "Node 6 (Name ''call_a'') []" "[]" init]
  by (simp add: ex_outer_def ex_inner_def)

text \<open>
  The claim as the specification states it fails on the specification's own example: after
  the extraction of the module, \<open>outer\<close> is the only owner and \<open>inner\<close> has no edges.
\<close>

theorem inner_gets_no_entry:
  "graph (read_file (Node 0 Module [ex_outer])) =
     [(ex_outer,
       [\<lparr>obj = Node 6 (Name ''call_a'') [], is_conditional = False, is_loop = False\<rparr>,
        \<lparr>obj = Node 10 (Name ''call_b'') [], is_conditional = False, is_loop = False\<rparr>])]
   \<and> calls_of (graph (read_file (Node 0 Module [ex_outer]))) ex_inner = []"
  by (simp add: read_file_def init_def ex_outer_def ex_inner_def graph_append_def calls_of_def)

section \<open>Calls whose callee is not a plain name\<close>

text \<open>
  Claim C3, as the code has it. A call expression whose callee is not a plain name reference
  (a member access, a call on the result of another call, or anything else) leaves the
  counter as it is: no edge is emitted, and the pass does not descend into the call, so the
  calls in its arguments are not looked at.
\<close>

theorem non_name_callee_ignored:
  "\<not> is_Name f \<Longrightarrow> register_calls (Call i f as) p c l st = st"
  by simp

theorem non_name_callee_ignored_witness:
  "\<not> is_Name (Call 5 (Node 6 (Name ''f'') []) [])
   \<and> register_calls ex_call_on_call ex_outer False False init = init"
  using non_name_callee_ignored [of "Call 5 (Node 6 (Name ''f'') []) []" 4
      "[Call 7 (Node 8 (Name ''g'') []) []]" ex_outer False False init]
  by (simp add: ex_call_on_call_def)

text \<open>
  The claim as stated asks for the plain-name calls in the arguments to be recorded. In
  \<^verbatim>\<open>def h(): f()(g())\<close> neither \<open>f\<close> nor \<open>g\<close> is recorded.
\<close>

theorem call_in_arguments_not_recorded:
  "graph (read_file (Node 1 (FunctionDef ''h'') [Node 2 Other [], Node 3 Other [ex_call_on_call]])) = []"
  by (simp add: read_file_def init_def ex_call_on_call_def)

section \<open>Context flags\<close>

text \<open>
  Claim C5. Every edge that a registration pass records has a flag set whenever the pass
  was entered with that flag set: no deeper node resets it. More exactly, the recorded edges
  are those of the plain-name calls reached, in source order, and the flag of an edge is set
  exactly when the pass started with it or an ancestor of the call below the start is a
  conditional (for \<open>is_conditional\<close>) or a \<^verbatim>\<open>for\<close> or \<^verbatim>\<open>while\<close> loop (for \<open>is_loop\<close>): a call
  under both has both flags, a call under loops only has \<open>is_conditional\<close> as the pass
  started.
\<close>

theorem flags_monotonic:
  "(\<forall>e \<in> set (recorded n p c l st). (c \<longrightarrow> is_conditional e) \<and> (l \<longrightarrow> is_loop e))
   \<and> recorded n p c l st = concat (map (edge_at c l) (reach n))"
proof -
  have "(c \<longrightarrow> is_conditional e) \<and> (l \<longrightarrow> is_loop e)" if "e \<in> set (call_edges n c l)" for e
  proof -
    from that obtain x where "x \<in> set (reach n)" "e \<in> set (edge_at c l x)"
      by (auto simp: call_edges_def)
    then show ?thesis
      by (cases "(c, l, x)" rule: edge_at.cases) (auto split: if_splits)
  qed
  then show ?thesis
    unfolding recorded_eq by (auto simp add: call_edges_def)
qed

theorem flags_monotonic_witness:
  "recorded (ex_loop For) ex_outer True False init =
      [\<lparr>obj = Node 6 (Name ''g'') [], is_conditional = True, is_loop = False\<rparr>]
   \<and> recorded ex_branch_loop ex_branch_loop False False init =
      [\<lparr>obj = Node 10 (Name ''g'') [], is_conditional = True, is_loop = True\<rparr>,
       \<lparr>obj = Node 13 (Name ''h'') [], is_conditional = False, is_loop = False\<rparr>]"
  using flags_monotonic [of "ex_loop For" ex_outer True False init]
    flags_monotonic [of ex_branch_loop ex_branch_loop False False init]
  by (simp add: ex_loop_def ex_branch_loop_def)

section \<open>The definition index\<close>

text \<open>
  Claim C8, as the code has it. Visiting a function or class definition writes it into the
  index under its name and then writes, in source order, every function definition reached
  strictly below it; each write replaces an earlier entry of the same name, so the last
  definition written under a name is the one the index holds, and no write fails. Class
  definitions below the visited definition are not written.
\<close>

theorem index_last_write_wins:
  assumes "k = FunctionDef nm \<or> k = ClassDef nm"
  shows "index (visit (Node i k cs) st) =
           index_all (nested_defs (Node i k cs)) ((index st)(nm \<mapsto> Node i k cs))
    \<and> dom (index (visit (Node i k cs) st)) =
           dom (index st) \<union> {nm} \<union> fst ` set (nested_defs (Node i k cs))
    \<and> (\<forall>ds nm' d' ds'. nested_defs (Node i k cs) = ds @ (nm', d') # ds' \<longrightarrow> nm' \<notin> fst ` set ds'
           \<longrightarrow> index (visit (Node i k cs) st) nm' = Some d')
    \<and> (nm \<notin> fst ` set (nested_defs (Node i k cs)) \<longrightarrow> index (visit (Node i k cs) st) nm = Some (Node i k cs))"
proof -
  note v = visit_def_eq [OF assms, of i cs st]
  have a: "index (visit (Node i k cs) st) =
           index_all (nested_defs (Node i k cs)) ((index st)(nm \<mapsto> Node i k cs))"
    unfolding v by simp
  have b: "dom (index (visit (Node i k cs) st)) =
           dom (index st) \<union> {nm} \<union> fst ` set (nested_defs (Node i k cs))"
    unfolding a by (auto simp: index_all_dom)
  have c: "index (visit (Node i k cs) st) nm' = Some d'"
    if "nested_defs (Node i k cs) = ds @ (nm', d') # ds'" "nm' \<notin> fst ` set ds'" for ds nm' d' ds'
    unfolding a using that by (simp add: index_all_last)
  have d: "index (visit (Node i k cs) st) nm = Some (Node i k cs)"
    if "nm \<notin> fst ` set (nested_defs (Node i k cs))"
    unfolding a using that by (simp add: index_all_absent)
  from a b c d show ?thesis by blast
qed

theorem index_last_write_wins_witness:
  "index (visit ex_outer (init\<lparr>index := [''inner'' \<mapsto> Node 99 (ClassDef ''inner'') []]\<rparr>)) ''inner''
     = Some ex_inner
   \<and> index (visit ex_outer (init\<lparr>index := [''inner'' \<mapsto> Node 99 (ClassDef ''inner'') []]\<rparr>)) ''outer''
     = Some ex_outer"
proof -
  let ?st = "init\<lparr>index := [''inner'' \<mapsto> Node 99 (ClassDef ''inner'') []]\<rparr>"
  let ?kids = "[Node 7 Other [], ex_inner, Node 8 Other [Call 9 (Node 10 (Name ''call_b'') []) []]]"
  have o: "ex_outer = Node 1 (FunctionDef ''outer'') ?kids"
    by (simp add: ex_outer_def)
  have k: "FunctionDef ''outer'' = FunctionDef ''outer'' \<or> FunctionDef ''outer'' = ClassDef ''outer''"
    by simp
  note t = index_last_write_wins [OF k, of 1 ?kids ?st, folded o]
  have n: "nested_defs ex_outer = [] @ (''inner'', ex_inner) # []"
    by (simp add: nested_defs_def ex_outer_def ex_inner_def)
  have e: "''inner'' \<notin> fst ` set ([] :: (string \<times> node) list)"
    by simp
  have a: "index (visit ex_outer ?st) ''inner'' = Some ex_inner"
    by (rule t [THEN conjunct2, THEN conjunct2, THEN conjunct1, rule_format, OF n e])
  have m: "''outer'' \<notin> fst ` set (nested_defs ex_outer)"
    unfolding n by simp
  have b: "index (visit ex_outer ?st) ''outer'' = Some ex_outer"
    by (rule t [THEN conjunct2, THEN conjunct2, THEN conjunct2, rule_format, OF m])
  from a b show ?thesis by (rule conjI)
qed

text \<open>
  The claim as stated includes nested classes. In \<^verbatim>\<open>def f(): class C: pass\<close> the class
  \<open>C\<close> is not in the index after the extraction.
\<close>

theorem nested_class_not_indexed:
  "index (read_file (Node 0 Module [ex_nested_class])) ''C'' = None
   \<and> index (read_file (Node 0 Module [ex_nested_class])) ''f'' = Some ex_nested_class"
  by (simp add: read_file_def init_def ex_nested_class_def)

section \<open>Totality of the extraction\<close>








section \<open>Loops at the top of a module\<close>

text \<open>
  Claim C10. A \<^verbatim>\<open>for\<close> (or \<^verbatim>\<open>while\<close>) loop at the top of a module whose body calls the
  plain name \<open>g\<close> makes the loop node an owner in the graph; the projection without
  filtering, the projection with filtering when \<open>g\<close> is no builtin name, and
  \<open>pretty_calls\<close> then all fail with an attribute error, since a loop node has no name.
\<close>

theorem top_level_loop_breaks_projection:
  "graph (read_file (Node 0 Module [ex_loop For])) =
     [(ex_loop For, [\<lparr>obj = Node 6 (Name ''g'') [], is_conditional = False, is_loop = True\<rparr>])]
   \<and> to_networkx builtins (read_file (Node 0 Module [ex_loop For])) False = Inl AttributeError
   \<and> to_networkx (builtins - {''g''}) (read_file (Node 0 Module [ex_loop For])) True = Inl AttributeError
   \<and> pretty_calls (read_file (Node 0 Module [ex_loop For])) = Inl AttributeError
   \<and> graph (read_file (Node 0 Module [ex_loop While])) =
     [(ex_loop While, [\<lparr>obj = Node 6 (Name ''g'') [], is_conditional = False, is_loop = True\<rparr>])]
   \<and> to_networkx builtins (read_file (Node 0 Module [ex_loop While])) False = Inl AttributeError
   \<and> to_networkx (builtins - {''g''}) (read_file (Node 0 Module [ex_loop While])) True = Inl AttributeError
   \<and> pretty_calls (read_file (Node 0 Module [ex_loop While])) = Inl AttributeError"
  by (simp add: read_file_def init_def ex_loop_def graph_append_def to_networkx_def
      add_call_def pretty_calls_def)

section \<open>Colours\<close>

lemma color_loop_eq:
  "color_loop es cm cl =
     (if \<forall>e \<in> set es. cm (flags_of e) \<noteq> None
      then Inr (cl @ map (\<lambda>e. the (cm (flags_of e))) es) else Inl KeyError)"
proof (induction es arbitrary: cl)
  case Nil
  then show ?case by simp
next
  case (Cons e es)
  obtain u v k d where e: "e = (u, v, k, d)" by (cases e)
  show ?case
    unfolding e by (cases "cm d") (simp_all add: Cons.IH)
qed

text \<open>
  Claim C7. \<open>color_vector\<close> returns one colour for each edge, in the order the graph
  iterates its edges, each the colormap's entry for the pair of flags of that edge; it fails,
  with a lookup error, exactly when the pair of flags of some edge has no entry. The function
  only reads the graph it is given: no graph is changed by a failure.
\<close>

theorem color_vector_lookup:
  "color_vector G colormap =
     (if \<forall>e \<in> set (edges G). colormap (flags_of e) \<noteq> None
      then Inr (map (\<lambda>e. the (colormap (flags_of e))) (edges G))
      else Inl KeyError)"
  by (simp add: color_vector_def color_loop_eq)

theorem color_vector_lookup_witness:
  "color_vector [(''f'', [(''g'', [(0, True, False)])]), (''g'', [])]
     [(True, False) \<mapsto> ''cyan'', (False, False) \<mapsto> ''black''] = Inr [''cyan'']
   \<and> color_vector [(''f'', [(''g'', [(0, True, False)])]), (''g'', [])]
     [(False, False) \<mapsto> ''black''] = Inl KeyError"
  using color_vector_lookup [of "[(''f'', [(''g'', [(0, True, False)])]), (''g'', [])]"
      "[(True, False) \<mapsto> ''cyan'', (False, False) \<mapsto> ''black'']"]
    color_vector_lookup [of "[(''f'', [(''g'', [(0, True, False)])]), (''g'', [])]"
      "[(False, False) \<mapsto> ''black'']"]
  by (simp add: edges_def)

section \<open>Edges added by the projection\<close>

lemma edges_Nil: "edges [] = []"
  by (simp add: edges_def)

lemma edges_Cons: "edges ((u, nbrs) # G) = row u nbrs @ edges G"
  by (simp add: edges_def row_def)

lemma edges_append: "edges (G @ H) = edges G @ edges H"
  by (simp add: edges_def)

lemma edges_add_node: "edges (add_node u G) = edges G"
  by (simp add: add_node_def edges_append) (simp add: edges_def)

lemma map_of_add_node:
  "map_of (add_node u G) w = (if w = u \<and> map_of G u = None then Some [] else map_of G w)"
proof (cases "u \<in> fst ` set G")
  case True
  then show ?thesis by (auto simp: add_node_def map_of_eq_None_iff)
next
  case False
  then have "map_of G u = None" by (simp add: map_of_eq_None_iff)
  with False show ?thesis
    by (auto simp: add_node_def map_add_def split: option.splits)
qed

lemma new_key_loop_fresh: "new_key_loop k kd \<notin> fst ` set kd"
proof (induction k kd rule: new_key_loop.induct)
  case (1 key keydict)
  show ?case
  proof (cases "key \<in> fst ` set keydict")
    case True
    with 1 show ?thesis by (subst new_key_loop.simps) simp
  next
    case False
    then show ?thesis by (subst new_key_loop.simps) simp
  qed
qed

lemma update_fresh: "k \<notin> fst ` set al \<Longrightarrow> AList.update k v al = al @ [(k, v)]"
  by (induction al) auto

lemma mset_edges_update:
  "map_of G u = Some nbrs \<Longrightarrow>
   mset (edges (AList.update u nbrs' G)) + mset (row u nbrs) = mset (edges G) + mset (row u nbrs')"
proof (induction G)
  case Nil
  then show ?case by simp
next
  case (Cons p G)
  obtain w ns where p: "p = (w, ns)" by (cases p)
  show ?case
  proof (cases "w = u")
    case True
    with Cons.prems p show ?thesis by (simp add: edges_Cons)
  next
    case False
    with Cons p show ?thesis by (simp add: edges_Cons)
  qed
qed

lemma cell_eq: "(\<lambda>(k, d). (u, v, k, d)) = (\<lambda>a. (u, v, a))"
  by (simp add: fun_eq_iff)

lemma row_Cons: "row u ((v, kd) # nbrs) = map (\<lambda>(k, d). (u, v, k, d)) kd @ row u nbrs"
  by (simp add: row_def)

lemma row_append: "row u (xs @ ys) = row u xs @ row u ys"
  by (simp add: row_def)

lemma mset_row_update:
  "mset (row u (AList.update v kd' nbrs))
     + mset (map (\<lambda>(k, d). (u, v, k, d)) (case map_of nbrs v of None \<Rightarrow> [] | Some kd \<Rightarrow> kd))
   = mset (row u nbrs) + mset (map (\<lambda>(k, d). (u, v, k, d)) kd')"
proof (induction nbrs)
  case Nil
  then show ?case by (simp add: row_def cell_eq)
next
  case (Cons p nbrs)
  obtain w kd where p: "p = (w, kd)" by (cases p)
  show ?case
  proof (cases "w = v")
    case True
    with p show ?thesis by (simp add: row_Cons cell_eq)
  next
    case False
    with Cons p show ?thesis by (simp add: row_Cons cell_eq)
  qed
qed

lemma add_edge_new_key:
  "\<exists>k. mset (edges (add_edge u v None d G)) = mset (edges G) + {#(u, v, k, d)#}"
proof -
  define G2 where "G2 = add_node v (add_node u G)"
  obtain nbrs where nbrs: "map_of G2 u = Some nbrs"
    by (cases "map_of G2 u") (auto simp: G2_def map_of_add_node split: if_splits)
  define kd where "kd = (case map_of nbrs v of None \<Rightarrow> [] | Some kd \<Rightarrow> kd)"
  define k where "k = new_edge_key u v G2"
  have fresh: "k \<notin> fst ` set kd"
    by (auto simp: k_def new_edge_key_def nbrs kd_def new_key_loop_fresh split: option.splits)
  have res: "add_edge u v None d G = AList.update u (AList.update v (kd @ [(k, d)]) nbrs) G2"
    using update_fresh [OF fresh]
    by (simp add: add_edge_def Let_def G2_def [symmetric] nbrs kd_def [symmetric] k_def [symmetric])
  have "mset (edges (add_edge u v None d G)) + mset (row u nbrs) =
        mset (edges G2) + mset (row u (AList.update v (kd @ [(k, d)]) nbrs))"
    unfolding res by (rule mset_edges_update [OF nbrs])
  moreover have "mset (row u (AList.update v (kd @ [(k, d)]) nbrs))
       + mset (map (\<lambda>(k, d). (u, v, k, d)) kd)
     = mset (row u nbrs) + mset (map (\<lambda>(k, d). (u, v, k, d)) (kd @ [(k, d)]))"
    unfolding kd_def by (rule mset_row_update)
  moreover have "edges G2 = edges G"
    by (simp add: G2_def edges_add_node)
  ultimately have "mset (edges (add_edge u v None d G)) + (mset (row u nbrs) + mset (map (\<lambda>(k, d). (u, v, k, d)) kd)) =
        (mset (edges G) + {#(u, v, k, d)#}) + (mset (row u nbrs) + mset (map (\<lambda>(k, d). (u, v, k, d)) kd))"
    by (simp add: ac_simps)
  then have "mset (edges (add_edge u v None d G)) = mset (edges G) + {#(u, v, k, d)#}"
    by simp
  then show ?thesis ..
qed

lemma add_edge_strip:
  "image_mset strip (mset (edges (add_edge u v None d G))) =
     image_mset strip (mset (edges G)) + {#(u, v, d)#}"
proof -
  from add_edge_new_key [of u v d G] obtain k where
    "mset (edges (add_edge u v None d G)) = mset (edges G) + {#(u, v, k, d)#}" ..
  then show ?thesis by simp
qed

lemma add_call_strip:
  "add_call v1 e G = Inr G' \<Longrightarrow>
   image_mset strip (mset (edges G')) = image_mset strip (mset (edges G)) + {#call_triple v1 e#}"
  by (auto simp: add_call_def call_triple_def add_edge_strip split: option.splits)

lemma project_calls_strip:
  "project_calls B fb v1 es G = Inr G' \<Longrightarrow>
   image_mset strip (mset (edges G')) =
     image_mset strip (mset (edges G)) + mset (map (call_triple v1) (filter (keep B fb) es))"
proof (induction es arbitrary: G)
  case Nil
  then show ?case by simp
next
  case (Cons e es)
  show ?case
  proof (cases "keep B fb e")
    case True
    with Cons.prems obtain G1 where G1: "add_call v1 e G = Inr G1"
      "project_calls B fb v1 es G1 = Inr G'"
      by (auto simp: keep_def split: if_splits option.splits sum.splits)
    from Cons.IH [OF G1(2)] add_call_strip [OF G1(1)] True
    show ?thesis by (simp add: ac_simps)
  next
    case False
    with Cons.prems have "project_calls B fb v1 es G = Inr G'"
      by (auto simp: keep_def split: if_splits option.splits sum.splits)
    from Cons.IH [OF this] False show ?thesis by simp
  qed
qed

lemma project_items_strip:
  "project_items B fb items G = Inr G' \<Longrightarrow>
   image_mset strip (mset (edges G')) =
     image_mset strip (mset (edges G))
     + mset (concat (map (\<lambda>(v1, v2). map (call_triple v1) (filter (keep B fb) v2)) items))"
proof (induction items arbitrary: G)
  case Nil
  then show ?case by simp
next
  case (Cons p items)
  obtain v1 v2 where p: "p = (v1, v2)" by (cases p)
  from Cons.prems p obtain G1 where G1: "project_calls B fb v1 v2 G = Inr G1"
    "project_items B fb items G1 = Inr G'"
    by (auto split: sum.splits)
  from Cons.IH [OF G1(2)] project_calls_strip [OF G1(1)] p
  show ?case by (simp add: ac_simps)
qed

text \<open>
  What the filter does with a given set of names: when the projection with filtering
  returns a graph, its edges without their keys are, counted with multiplicity, the edges of
  the index whose callee is not in the set, and no edge of the graph leads to a name of the
  set.
\<close>

lemma projection_filters_names:
  assumes "to_networkx builtins fnc True = Inr G"
  shows "image_mset strip (mset (edges G)) =
           mset (concat (map (\<lambda>(v1, v2). map (call_triple v1)
                   (filter (\<lambda>e. the (id_of (obj e)) \<notin> builtins) v2)) (graph fnc)))
    \<and> (\<forall>e \<in> set (edges G). fst (snd e) \<notin> builtins)"
proof -
  have k: "keep builtins True = (\<lambda>e. the (id_of (obj e)) \<notin> builtins)"
    by (simp add: keep_def fun_eq_iff)
  from project_items_strip [OF assms [unfolded to_networkx_def]]
  have a: "image_mset strip (mset (edges G)) =
           mset (concat (map (\<lambda>(v1, v2). map (call_triple v1)
                   (filter (\<lambda>e. the (id_of (obj e)) \<notin> builtins) v2)) (graph fnc)))"
    by (simp add: k edges_Nil)
  have "fst (snd e) \<notin> builtins" if "e \<in> set (edges G)" for e
  proof -
    from that have "strip e \<in># image_mset strip (mset (edges G))" by simp
    then have "strip e \<in> set (concat (map (\<lambda>(v1, v2). map (call_triple v1)
                   (filter (\<lambda>e. the (id_of (obj e)) \<notin> builtins) v2)) (graph fnc)))"
      unfolding a by simp
    then obtain v1 e' where "strip e = call_triple v1 e'" "the (id_of (obj e')) \<notin> builtins"
      by auto
    then show ?thesis
      by (cases e) (simp add: call_triple_def)
  qed
  with a show ?thesis by blast
qed

text \<open>
  Claim C6 fails on the code. The docstring of \<^verbatim>\<open>to_networkx\<close> promises to filter out the
  calls of builtin functions, and the claim says the same; but the set the code filters
  with is \<^verbatim>\<open>set(dir(__builtins__))\<close>, which in the imported module holds the attribute
  names of a dictionary and not the builtin names. With filtering on, the call of \<open>print\<close>
  in a loop of \<open>f\<close> is projected to an edge from \<open>f\<close> to \<open>print\<close>.
\<close>

theorem builtin_call_kept_when_imported:
  "''print'' \<notin> imported_builtins
   \<and> to_networkx imported_builtins ex_counter True =
       Inr [(''f'', [(''g'', [(0, False, False), (1, True, False)]),
                     (''print'', [(0, False, True)])]),
            (''g'', []), (''print'', [])]
   \<and> (''f'', ''print'', 0, False, True)
       \<in> set (edges [(''f'', [(''g'', [(0, False, False), (1, True, False)]),
                               (''print'', [(0, False, True)])]),
                      (''g'', []), (''print'', [])])"
  by (simp add: imported_builtins_def dict_attribute_names_def to_networkx_def ex_counter_def
      init_def add_call_def add_edge_def add_node_def new_edge_key_def Let_def
      new_key_loop.simps edges_def)

section \<open>Projection of a visited definition\<close>





section \<open>Composition of graphs\<close>

lemma edge_data_add_node: "edge_data (add_node u G) = edge_data G"
  by (auto simp: edge_data_def map_of_add_node fun_eq_iff split: option.splits)

lemma add_edge_keyed:
  "add_edge u v (Some k) d G =
     (let G2 = add_node v (add_node u G);
          nbrs = (case map_of G2 u of None \<Rightarrow> [] | Some nbrs \<Rightarrow> nbrs);
          kd = (case map_of nbrs v of None \<Rightarrow> [] | Some kd \<Rightarrow> kd)
      in AList.update u (AList.update v (AList.update k d kd) nbrs) G2)"
  by (simp add: add_edge_def Let_def)

lemma map_of_add_nodes_u: "\<exists>nbrs. map_of (add_node v (add_node u G)) u = Some nbrs"
  by (cases "map_of G u") (auto simp: map_of_add_node)

lemma edge_data_add_edge:
  "edge_data (add_edge u v (Some k) d G) = (edge_data G)((u, v, k) \<mapsto> d)"
proof -
  define G2 where "G2 = add_node v (add_node u G)"
  obtain nbrs where nbrs: "map_of G2 u = Some nbrs"
    unfolding G2_def using map_of_add_nodes_u by blast
  have e2: "edge_data G2 = edge_data G"
    by (simp add: G2_def edge_data_add_node)
  have "edge_data (AList.update u (AList.update v (AList.update k d
          (case map_of nbrs v of None \<Rightarrow> [] | Some kd \<Rightarrow> kd)) nbrs) G2)
        = (edge_data G2)((u, v, k) \<mapsto> d)"
    by (auto simp: edge_data_def fun_eq_iff update_conv' nbrs split: option.splits)
  then show ?thesis
    by (simp add: add_edge_keyed Let_def G2_def [symmetric] nbrs e2)
qed

lemma nodes_add_node: "set (nodes (add_node u G)) = insert u (set (nodes G))"
  by (auto simp: nodes_def add_node_def)

lemma nodes_add_edge: "set (nodes (add_edge u v key d G)) = insert u (insert v (set (nodes G)))"
proof -
  have "fst ` set (add_edge u v key d G) = insert u (insert v (fst ` set G))"
    unfolding add_edge_def Let_def dom_update
    by (auto simp: add_node_def)
  then show ?thesis by (simp add: nodes_def)
qed

lemma nodes_fold_add_node: "set (nodes (fold add_node us G)) = set us \<union> set (nodes G)"
  by (induction us arbitrary: G) (auto simp: nodes_add_node)

lemma nodes_add_edges_from:
  "set (nodes (add_edges_from es G)) =
     (\<Union>e \<in> set es. {fst e, fst (snd e)}) \<union> set (nodes G)"
  unfolding add_edges_from_def
  by (induction es arbitrary: G) (auto simp: nodes_add_edge)

lemma edge_data_fold_add_node: "edge_data (fold add_node us G) = edge_data G"
  by (induction us arbitrary: G) (simp_all add: edge_data_add_node)

lemma edge_data_add_edges_from:
  "edge_data (add_edges_from es G) =
     fold (\<lambda>(x, d) m. m(x \<mapsto> d)) (map (\<lambda>e. (edge_key e, flags_of e)) es) (edge_data G)"
  unfolding add_edges_from_def
  by (induction es arbitrary: G) (auto simp: edge_data_add_edge)

lemma fold_upd_distinct:
  "distinct (map fst xs) \<Longrightarrow> fold (\<lambda>(x, d) m. m(x \<mapsto> d)) xs m = m ++ map_of xs"
proof (induction xs arbitrary: m)
  case Nil
  then show ?case by simp
next
  case (Cons p xs)
  obtain a b where p: "p = (a, b)" by (cases p)
  from Cons.prems p have "map_of xs a = None"
    by (simp add: map_of_eq_None_iff)
  then have h: "m(a \<mapsto> b) ++ map_of xs = m ++ map_of (p # xs)"
    by (auto simp: p fun_eq_iff map_add_def split: option.splits)
  have "fold (\<lambda>(x, d) m. m(x \<mapsto> d)) (p # xs) m =
        fold (\<lambda>(x, d) m. m(x \<mapsto> d)) xs (m(a \<mapsto> b))"
    by (simp only: p fold_simps prod.case o_apply)
  also have "\<dots> = m(a \<mapsto> b) ++ map_of xs"
    using Cons.prems by (intro Cons.IH) simp
  finally show ?case
    using h by (simp only:)
qed

lemma wf_graph_Nil: "wf_graph []"
  by (simp add: wf_graph_def)

lemma wf_nbrs_mono: "wf_nbrs N nbrs \<Longrightarrow> N \<subseteq> N' \<Longrightarrow> wf_nbrs N' nbrs"
  by (auto simp: wf_nbrs_def list_all_iff)

lemma wf_add_node: "wf_graph G \<Longrightarrow> wf_graph (add_node u G)"
  by (auto simp: wf_graph_def add_node_def list_all_iff wf_nbrs_def)

lemma set_update_subset: "set (AList.update k v al) \<subseteq> insert (k, v) (set al)"
  by (induction al) auto

lemma wf_nbrs_update:
  assumes "wf_nbrs N nbrs" "distinct (map fst kd)" "v \<in> N"
  shows "wf_nbrs N (AList.update v kd nbrs)"
proof -
  have "distinct (map fst (AList.update v kd nbrs))"
    using assms(1) by (simp add: wf_nbrs_def distinct_update)
  moreover have "\<forall>x \<in> set (AList.update v kd nbrs).
      case x of (w, kd') \<Rightarrow> w \<in> N \<and> distinct (map fst kd')"
    using assms set_update_subset [of v kd nbrs]
    by (auto simp: wf_nbrs_def list_all_iff)
  ultimately show ?thesis
    by (simp add: wf_nbrs_def list_all_iff)
qed

lemma wf_graph_update:
  assumes "wf_graph G" "wf_nbrs (insert u (fst ` set G)) nbrs"
  shows "wf_graph (AList.update u nbrs G)"
proof -
  have d: "distinct (map fst (AList.update u nbrs G))"
    using assms(1) by (simp add: wf_graph_def distinct_update)
  have k: "fst ` set (AList.update u nbrs G) = insert u (fst ` set G)"
    by (simp add: dom_update)
  have "wf_nbrs (insert u (fst ` set G)) ns" if "(w, ns) \<in> set (AList.update u nbrs G)" for w ns
  proof (cases "(w, ns) = (u, nbrs)")
    case True
    with assms(2) show ?thesis by simp
  next
    case False
    with that set_update_subset [of u nbrs G] have "(w, ns) \<in> set G" by auto
    with assms(1) have "wf_nbrs (fst ` set G) ns"
      by (auto simp: wf_graph_def list_all_iff)
    then show ?thesis by (rule wf_nbrs_mono) auto
  qed
  with d k show ?thesis
    by (auto simp: wf_graph_def list_all_iff)
qed

lemma add_edge_shape:
  "\<exists>k nbrs. map_of (add_node v (add_node u G)) u = Some nbrs \<and>
     add_edge u v key d G =
       AList.update u (AList.update v (AList.update k d
          (case map_of nbrs v of None \<Rightarrow> [] | Some kd \<Rightarrow> kd)) nbrs) (add_node v (add_node u G))"
proof -
  obtain nbrs where n: "map_of (add_node v (add_node u G)) u = Some nbrs"
    using map_of_add_nodes_u by blast
  have "add_edge u v key d G =
       AList.update u (AList.update v (AList.update
          (case key of None \<Rightarrow> new_edge_key u v (add_node v (add_node u G)) | Some k \<Rightarrow> k) d
          (case map_of nbrs v of None \<Rightarrow> [] | Some kd \<Rightarrow> kd)) nbrs) (add_node v (add_node u G))"
    by (simp add: add_edge_def Let_def n)
  with n show ?thesis by blast
qed

lemma wf_add_edge:
  assumes "wf_graph G"
  shows "wf_graph (add_edge u v key d G)"
proof -
  define G2 where "G2 = add_node v (add_node u G)"
  from add_edge_shape [of v u G key d] obtain k nbrs where
    nbrs: "map_of G2 u = Some nbrs" and
    res: "add_edge u v key d G =
       AList.update u (AList.update v (AList.update k d
          (case map_of nbrs v of None \<Rightarrow> [] | Some kd \<Rightarrow> kd)) nbrs) G2"
    unfolding G2_def by blast
  have wf2: "wf_graph G2"
    using assms by (simp add: G2_def wf_add_node)
  have v2: "v \<in> fst ` set G2"
    using nodes_add_node [of v "add_node u G"] by (simp add: G2_def nodes_def)
  from nbrs have "(u, nbrs) \<in> set G2" by (rule map_of_SomeD)
  with wf2 have wn: "wf_nbrs (fst ` set G2) nbrs"
    by (auto simp: wf_graph_def list_all_iff)
  define kd where "kd = (case map_of nbrs v of None \<Rightarrow> [] | Some kd \<Rightarrow> kd)"
  have "distinct (map fst kd)"
  proof (cases "map_of nbrs v")
    case None
    then show ?thesis by (simp add: kd_def)
  next
    case (Some a)
    then have "(v, a) \<in> set nbrs" by (rule map_of_SomeD)
    with wn Some show ?thesis by (auto simp: kd_def wf_nbrs_def list_all_iff)
  qed
  then have "distinct (map fst (AList.update k d kd))"
    by (rule distinct_update)
  with wn have "wf_nbrs (fst ` set G2) (AList.update v (AList.update k d kd) nbrs)"
    using v2 by (rule wf_nbrs_update)
  then have "wf_nbrs (insert u (fst ` set G2)) (AList.update v (AList.update k d kd) nbrs)"
    by (rule wf_nbrs_mono) auto
  with wf2 have "wf_graph (AList.update u (AList.update v (AList.update k d kd) nbrs) G2)"
    by (rule wf_graph_update)
  then show ?thesis
    by (simp add: res kd_def)
qed

lemma in_row:
  "((u', v, k, d) \<in> set (row u nbrs)) =
     (u' = u \<and> (\<exists>kd. (v, kd) \<in> set nbrs \<and> (k, d) \<in> set kd))"
proof (induction nbrs)
  case Nil
  then show ?case by (simp add: row_def)
next
  case (Cons p nbrs)
  obtain w kd where p: "p = (w, kd)" by (cases p)
  show ?case
    unfolding p row_Cons using Cons.IH by auto
qed

lemma in_edges:
  "((u, v, k, d) \<in> set (edges G)) =
     (\<exists>nbrs kd. (u, nbrs) \<in> set G \<and> (v, kd) \<in> set nbrs \<and> (k, d) \<in> set kd)"
proof (induction G)
  case Nil
  then show ?case by (simp add: edges_Nil)
next
  case (Cons p G)
  obtain w nbrs where p: "p = (w, nbrs)" by (cases p)
  show ?case
    unfolding p edges_Cons using Cons.IH by (auto simp: in_row)
qed

lemma edge_data_wf:
  assumes "wf_graph G"
  shows "(edge_data G (u, v, k) = Some d) = ((u, v, k, d) \<in> set (edges G))"
proof
  assume "edge_data G (u, v, k) = Some d"
  then obtain nbrs kd where "map_of G u = Some nbrs" "map_of nbrs v = Some kd"
    "map_of kd k = Some d"
    by (auto simp: edge_data_def split: option.splits)
  then have "(u, nbrs) \<in> set G" "(v, kd) \<in> set nbrs" "(k, d) \<in> set kd"
    by (auto dest: map_of_SomeD)
  then show "(u, v, k, d) \<in> set (edges G)"
    unfolding in_edges by blast
next
  assume "(u, v, k, d) \<in> set (edges G)"
  then obtain nbrs kd where m: "(u, nbrs) \<in> set G" "(v, kd) \<in> set nbrs" "(k, d) \<in> set kd"
    unfolding in_edges by blast
  from assms m(1) have a: "map_of G u = Some nbrs" and wn: "wf_nbrs (fst ` set G) nbrs"
    by (auto simp: wf_graph_def list_all_iff)
  from wn m(2) have b: "map_of nbrs v = Some kd" and dk: "distinct (map fst kd)"
    by (auto simp: wf_nbrs_def list_all_iff)
  from dk m(3) have "map_of kd k = Some d" by simp
  with a b show "edge_data G (u, v, k) = Some d"
    by (simp add: edge_data_def)
qed

lemma edges_in_nodes:
  assumes "wf_graph G" "e \<in> set (edges G)"
  shows "fst e \<in> set (nodes G) \<and> fst (snd e) \<in> set (nodes G)"
proof -
  obtain u v k d where e: "e = (u, v, k, d)" by (cases e)
  from assms(2) have "(u, v, k, d) \<in> set (edges G)" by (simp add: e)
  then obtain nbrs kd where m: "(u, nbrs) \<in> set G" "(v, kd) \<in> set nbrs"
    unfolding in_edges by blast
  from assms(1) m(1) have "wf_nbrs (fst ` set G) nbrs"
    by (auto simp: wf_graph_def list_all_iff)
  with m(2) have "v \<in> fst ` set G"
    by (auto simp: wf_nbrs_def list_all_iff)
  moreover from m(1) have "u \<in> fst ` set G"
    by force
  ultimately show ?thesis
    by (simp add: e nodes_def)
qed

lemma edge_key_row:
  "wf_nbrs N nbrs \<Longrightarrow> distinct (map edge_key (row u nbrs))"
proof (induction nbrs)
  case Nil
  then show ?case by (simp add: row_def)
next
  case (Cons p nbrs)
  obtain v kd where p: "p = (v, kd)" by (cases p)
  from Cons.prems p have dk: "distinct (map fst kd)" and v: "v \<notin> fst ` set nbrs"
    and rest: "wf_nbrs N nbrs"
    by (auto simp: wf_nbrs_def)
  have "map edge_key (map (\<lambda>(k, d). (u, v, k, d)) kd) = map (\<lambda>k. (u, v, k)) (map fst kd)"
    by (induction kd) auto
  moreover have "distinct (map (\<lambda>k. (u, v, k)) (map fst kd))"
    using dk by (simp add: distinct_map inj_on_def del: map_map)
  ultimately have a: "distinct (map edge_key (map (\<lambda>(k, d). (u, v, k, d)) kd))"
    by (simp only:)
  have b: "edge_key ` set (map (\<lambda>(k, d). (u, v, k, d)) kd) \<inter> edge_key ` set (row u nbrs) = {}"
  proof -
    have "fst (snd (edge_key e)) \<noteq> v" if "e \<in> set (row u nbrs)" for e
    proof -
      obtain u' w k d where e: "e = (u', w, k, d)" by (cases e)
      with that v show ?thesis
        by (auto simp: in_row) force
    qed
    then show ?thesis by force
  qed
  from a b Cons.IH [OF rest] show ?case
    unfolding p row_Cons by (simp add: image_image)
qed

lemma edge_key_edges:
  "distinct (map fst G) \<Longrightarrow> list_all (\<lambda>(u, nbrs). wf_nbrs N nbrs) G
   \<Longrightarrow> distinct (map edge_key (edges G))"
proof (induction G)
  case Nil
  then show ?case by (simp add: edges_Nil)
next
  case (Cons p G)
  obtain u nbrs where p: "p = (u, nbrs)" by (cases p)
  from Cons.prems p have u: "u \<notin> fst ` set G" and wn: "wf_nbrs N nbrs"
    and rest: "distinct (map fst G)" "list_all (\<lambda>(u, nbrs). wf_nbrs N nbrs) G"
    by auto
  have "edge_key ` set (row u nbrs) \<inter> edge_key ` set (edges G) = {}"
  proof -
    have "fst (edge_key e) = u" if "e \<in> set (row u nbrs)" for e
    proof -
      obtain u' w k d where e: "e = (u', w, k, d)" by (cases e)
      with that show ?thesis by (simp add: in_row)
    qed
    moreover have "fst (edge_key e) \<noteq> u" if "e \<in> set (edges G)" for e
    proof -
      obtain u' w k d where e: "e = (u', w, k, d)" by (cases e)
      with that u show ?thesis
        by (auto simp: in_edges) force
    qed
    ultimately show ?thesis by force
  qed
  with edge_key_row [OF wn, of u] Cons.IH [OF rest] show ?case
    unfolding p edges_Cons by simp
qed

lemma wf_edge_keys: "wf_graph G \<Longrightarrow> distinct (map edge_key (edges G))"
  unfolding wf_graph_def by (rule edge_key_edges) auto

lemma wf_edges_distinct: "wf_graph G \<Longrightarrow> distinct (edges G)"
  using wf_edge_keys distinct_map by blast

lemma option_eq_SomeI: "(\<And>d. (a = Some d) = (b = Some d)) \<Longrightarrow> a = b"
  by (cases a; cases b) auto

lemma map_of_edges:
  assumes "wf_graph G"
  shows "map_of (map (\<lambda>e. (edge_key e, flags_of e)) (edges G)) = edge_data G"
proof
  fix x :: "string \<times> string \<times> nat"
  obtain u v k where x: "x = (u, v, k)" by (cases x)
  let ?kv = "map (\<lambda>e. (edge_key e, flags_of e)) (edges G)"
  have dk: "distinct (map fst ?kv)"
    using wf_edge_keys [OF assms] by (simp add: o_def)
  have "(map_of ?kv x = Some d) = (edge_data G x = Some d)" for d
  proof -
    have "(map_of ?kv x = Some d) = ((x, d) \<in> set ?kv)"
      using dk by (rule map_of_eq_Some_iff)
    also have "\<dots> = ((u, v, k, d) \<in> set (edges G))"
    proof
      assume "(x, d) \<in> set ?kv"
      then obtain e where e: "e \<in> set (edges G)" "edge_key e = x" "flags_of e = d"
        by auto
      obtain u' v' k' d' where "e = (u', v', k', d')" by (cases e)
      with e x show "(u, v, k, d) \<in> set (edges G)" by simp
    next
      assume "(u, v, k, d) \<in> set (edges G)"
      then have "(\<lambda>e. (edge_key e, flags_of e)) (u, v, k, d)
          \<in> (\<lambda>e. (edge_key e, flags_of e)) ` set (edges G)"
        by (rule imageI)
      then show "(x, d) \<in> set ?kv" by (simp add: x)
    qed
    also have "\<dots> = (edge_data G x = Some d)"
      unfolding x by (rule edge_data_wf [OF assms, symmetric])
    finally show ?thesis .
  qed
  then show "map_of ?kv x = edge_data G x"
    by (rule option_eq_SomeI)
qed

lemma edge_data_Nil: "edge_data [] = Map.empty"
  by (simp add: edge_data_def fun_eq_iff)

lemma wf_fold_add_node: "wf_graph G \<Longrightarrow> wf_graph (fold add_node us G)"
  by (induction us arbitrary: G) (simp_all add: wf_add_node)

lemma wf_add_edges_from: "wf_graph G \<Longrightarrow> wf_graph (add_edges_from es G)"
  unfolding add_edges_from_def
  by (induction es arbitrary: G) (auto simp: wf_add_edge)

lemma wf_compose: "wf_graph (compose G H)"
  unfolding compose_def
  by (intro wf_add_edges_from wf_fold_add_node wf_graph_Nil)

lemma edge_data_compose:
  assumes "wf_graph G" "wf_graph H"
  shows "edge_data (compose G H) = edge_data G ++ edge_data H"
proof -
  have d: "distinct (map fst (map (\<lambda>e. (edge_key e, flags_of e)) (edges X)))" if "wf_graph X" for X
    using wf_edge_keys [OF that] by (simp add: o_def)
  have "edge_data (compose G H) =
        (Map.empty ++ map_of (map (\<lambda>e. (edge_key e, flags_of e)) (edges G)))
          ++ map_of (map (\<lambda>e. (edge_key e, flags_of e)) (edges H))"
    unfolding compose_def
    by (simp only: edge_data_add_edges_from edge_data_fold_add_node edge_data_Nil
        fold_upd_distinct [OF d [OF assms(1)]] fold_upd_distinct [OF d [OF assms(2)]])
  then show ?thesis
    by (simp add: map_of_edges assms)
qed

lemma nodes_compose:
  assumes "wf_graph G" "wf_graph H"
  shows "set (nodes (compose G H)) = set (nodes G) \<union> set (nodes H)"
proof -
  have "(\<Union>e \<in> set (edges X). {fst e, fst (snd e)}) \<subseteq> set (nodes X)" if "wf_graph X" for X
    using edges_in_nodes [OF that] by auto
  from this [OF assms(1)] this [OF assms(2)] show ?thesis
    unfolding compose_def nodes_add_edges_from nodes_fold_add_node
    by (auto simp: nodes_def)
qed

lemma wf_add_call: "wf_graph G \<Longrightarrow> add_call v1 e G = Inr G' \<Longrightarrow> wf_graph G'"
  by (auto simp: add_call_def wf_add_edge split: option.splits)

lemma wf_project_calls:
  "wf_graph G \<Longrightarrow> project_calls B fb v1 es G = Inr G' \<Longrightarrow> wf_graph G'"
proof (induction es arbitrary: G)
  case Nil
  then show ?case by simp
next
  case (Cons e es)
  show ?case
  proof (cases "keep B fb e")
    case True
    with Cons.prems(2) obtain G1 where G1: "add_call v1 e G = Inr G1"
      "project_calls B fb v1 es G1 = Inr G'"
      by (auto simp: keep_def split: if_splits option.splits sum.splits)
    from wf_add_call [OF Cons.prems(1) G1(1)] G1(2) show ?thesis
      by (rule Cons.IH)
  next
    case False
    with Cons.prems(2) have "project_calls B fb v1 es G = Inr G'"
      by (auto simp: keep_def split: if_splits option.splits sum.splits)
    with Cons.prems(1) show ?thesis by (rule Cons.IH)
  qed
qed

lemma wf_project_items:
  "wf_graph G \<Longrightarrow> project_items B fb items G = Inr G' \<Longrightarrow> wf_graph G'"
proof (induction items arbitrary: G)
  case Nil
  then show ?case by simp
next
  case (Cons p items)
  obtain v1 v2 where p: "p = (v1, v2)" by (cases p)
  from Cons.prems(2) p obtain G1 where G1: "project_calls B fb v1 v2 G = Inr G1"
    "project_items B fb items G1 = Inr G'"
    by (auto split: sum.splits)
  from wf_project_calls [OF Cons.prems(1) G1(1)] G1(2) show ?case
    by (rule Cons.IH)
qed

lemma wf_to_networkx: "to_networkx B fnc fb = Inr G \<Longrightarrow> wf_graph G"
  unfolding to_networkx_def using wf_graph_Nil by (rule wf_project_items)

lemma reduce_compose_spec:
  assumes "map (\<lambda>f. to_networkx B f fb) fncs = map Inr Hs" "wf_graph acc"
  shows "\<exists>G. reduce_compose B fb acc fncs = Inr G \<and> wf_graph G
    \<and> set (nodes G) = set (nodes acc) \<union> (\<Union>H \<in> set Hs. set (nodes H))
    \<and> edge_data G = foldl (++) (edge_data acc) (map edge_data Hs)"
  using assms
proof (induction fncs arbitrary: acc Hs)
  case Nil
  then show ?case by simp
next
  case (Cons f fncs)
  from Cons.prems(1) obtain H Hs' where Hs: "Hs = H # Hs'" "to_networkx B f fb = Inr H"
    "map (\<lambda>f. to_networkx B f fb) fncs = map Inr Hs'"
    by (cases Hs) auto
  have wH: "wf_graph H" using Hs(2) by (rule wf_to_networkx)
  from Cons.IH [OF Hs(3) wf_compose, of acc H] obtain G where
    G: "reduce_compose B fb (compose acc H) fncs = Inr G" "wf_graph G"
       "set (nodes G) = set (nodes (compose acc H)) \<union> (\<Union>H \<in> set Hs'. set (nodes H))"
       "edge_data G = foldl (++) (edge_data (compose acc H)) (map edge_data Hs')"
    by blast
  have "reduce_compose B fb acc (f # fncs) = Inr G"
    by (simp add: Hs(2) G(1))
  moreover have "set (nodes G) = set (nodes acc) \<union> (\<Union>H \<in> set Hs. set (nodes H))"
    unfolding G(3) nodes_compose [OF Cons.prems(2) wH] Hs(1) by auto
  moreover have "edge_data G = foldl (++) (edge_data acc) (map edge_data Hs)"
    unfolding G(4) edge_data_compose [OF Cons.prems(2) wH] Hs(1) by simp
  ultimately show ?case using G(2) by blast
qed

text \<open>
  Claim C4, as the code has it. When every counter of a non-empty sequence projects to a
  graph, merging returns a graph whose node set is the union of the node sets of these
  graphs. An edge is known by its end nodes and its key: the merged graph has an edge for
  every triple of end nodes and key that some input graph has, once, and it carries the
  flags of the last input graph that has the triple. So the edges of the merged graph are
  the union of the inputs' edges taken by end nodes and key, from left to right, not their
  concatenation.
\<close>

theorem merge_is_keyed_union:
  assumes "map (\<lambda>f. to_networkx builtins f filter_builtins) fncs = map Inr Gs"
    and "fncs \<noteq> []"
  shows "\<exists>G. merge_networkx builtins fncs filter_builtins = Inr G
    \<and> set (nodes G) = (\<Union>H \<in> set Gs. set (nodes H))
    \<and> edge_data G = foldl (++) Map.empty (map edge_data Gs)
    \<and> distinct (edges G)
    \<and> set (edges G) = {(u, v, k, d). edge_data G (u, v, k) = Some d}"
proof -
  from assms obtain f rest where f: "fncs = f # rest" by (cases fncs) auto
  with assms(1) obtain H Hs where Hs: "Gs = H # Hs"
    "to_networkx builtins f filter_builtins = Inr H"
    "map (\<lambda>f. to_networkx builtins f filter_builtins) rest = map Inr Hs"
    by (cases Gs) auto
  have wH: "wf_graph H" using Hs(2) by (rule wf_to_networkx)
  from reduce_compose_spec [OF Hs(3) wH] obtain G where
    G: "reduce_compose builtins filter_builtins H rest = Inr G" "wf_graph G"
       "set (nodes G) = set (nodes H) \<union> (\<Union>H \<in> set Hs. set (nodes H))"
       "edge_data G = foldl (++) (edge_data H) (map edge_data Hs)"
    by blast
  have a: "merge_networkx builtins fncs filter_builtins = Inr G"
    by (simp add: merge_networkx_def f Hs(2) G(1))
  have b: "set (nodes G) = (\<Union>H \<in> set Gs. set (nodes H))"
    unfolding G(3) Hs(1) by simp
  have c: "edge_data G = foldl (++) Map.empty (map edge_data Gs)"
    unfolding G(4) Hs(1) by simp
  have d: "distinct (edges G)"
    using G(2) by (rule wf_edges_distinct)
  have e: "set (edges G) = {(u, v, k, d). edge_data G (u, v, k) = Some d}"
    using edge_data_wf [OF G(2)] by auto
  from a b c d e show ?thesis by blast
qed

theorem merge_is_keyed_union_witness:
  "\<exists>G. merge_networkx {} [read_file ex_unit_plain, read_file ex_unit_branch] True = Inr G
     \<and> set (nodes G) = {''a'', ''b''}
     \<and> edge_data G (''a'', ''b'', 0) = Some (True, False)"
proof -
  let ?G1 = "[(''a'', [(''b'', [(0, False, False)])]), (''b'', [])]"
  let ?G2 = "[(''a'', [(''b'', [(0, True, False)])]), (''b'', [])]"
  have p: "to_networkx {} (read_file ex_unit_plain) True = Inr ?G1"
    by (simp add: read_file_def init_def ex_unit_plain_def graph_append_def to_networkx_def
        add_call_def add_edge_def add_node_def new_edge_key_def Let_def)
  have b: "to_networkx {} (read_file ex_unit_branch) True = Inr ?G2"
    by (simp add: read_file_def init_def ex_unit_branch_def graph_append_def to_networkx_def
        add_call_def add_edge_def add_node_def new_edge_key_def Let_def)
  have h: "map (\<lambda>f. to_networkx {} f True) [read_file ex_unit_plain, read_file ex_unit_branch]
        = map Inr [?G1, ?G2]"
    using p b by simp
  have ne: "[read_file ex_unit_plain, read_file ex_unit_branch] \<noteq> []"
    by simp
  from merge_is_keyed_union [OF h ne] obtain G where
    G: "merge_networkx {} [read_file ex_unit_plain, read_file ex_unit_branch] True = Inr G"
       "set (nodes G) = (\<Union>H \<in> set [?G1, ?G2]. set (nodes H))"
       "edge_data G = foldl (++) Map.empty (map edge_data [?G1, ?G2])"
    by blast
  have "set (nodes G) = {''a'', ''b''}"
    unfolding G(2) by (simp add: nodes_def)
  moreover have "edge_data G (''a'', ''b'', 0) = Some (True, False)"
    unfolding G(3) by (simp add: edge_data_def)
  ultimately show ?thesis
    using G(1) by blast
qed

text \<open>
  The claim as stated asks for both edges when two inputs each have an edge between the
  same pair of names. Two units that each define \<open>a\<close> calling \<open>b\<close> (the second under a
  condition) both project to one edge from \<open>a\<close> to \<open>b\<close> with key 0; the merged graph has one
  edge from \<open>a\<close> to \<open>b\<close>, with the flags of the second unit.
\<close>

theorem merge_collapses_equal_keys:
  "to_networkx {} (read_file ex_unit_plain) True =
       Inr [(''a'', [(''b'', [(0, False, False)])]), (''b'', [])]
   \<and> to_networkx {} (read_file ex_unit_branch) True =
       Inr [(''a'', [(''b'', [(0, True, False)])]), (''b'', [])]
   \<and> merge_networkx {} [read_file ex_unit_plain, read_file ex_unit_branch] True =
       Inr [(''a'', [(''b'', [(0, True, False)])]), (''b'', [])]
   \<and> edges [(''a'', [(''b'', [(0, True, False)])]), (''b'', [])] =
       [(''a'', ''b'', 0, True, False)]"
  by (simp add: read_file_def init_def ex_unit_plain_def ex_unit_branch_def graph_append_def
      to_networkx_def add_call_def add_edge_def add_node_def new_edge_key_def Let_def
      merge_networkx_def compose_def add_edges_from_def edges_def nodes_def)

section \<open>The graph of a source unit\<close>




lemma keys_append_subset: "fst ` set (graph_append p e g) \<subseteq> insert p (fst ` set g)"
  by (auto simp: graph_append_def dom_update)

lemma keys_fold_subset: "fst ` set (fold (graph_append p) es g) \<subseteq> insert p (fst ` set g)"
proof (induction es arbitrary: g)
  case Nil
  then show ?case by auto
next
  case (Cons e es)
  from Cons [of "graph_append p e g"] keys_append_subset [of p e g]
  show ?case by auto
qed




lemma owners_roots:
  "fst ` set (fold (\<lambda>r. fold (graph_append r) (es r)) rs g) \<subseteq> fst ` set g \<union> set rs"
proof (induction rs arbitrary: g)
  case Nil
  then show ?case by simp
next
  case (Cons r rs)
  have "fst ` set (fold (graph_append r) (es r) g) \<subseteq> insert r (fst ` set g)"
    using keys_fold_subset by blast
  with Cons [of "fold (graph_append r) (es r) g"] show ?case by auto
qed








lemma project_calls_error:
  "project_calls B fb v1 es G = Inl err \<Longrightarrow> err = AttributeError"
  by (induction es arbitrary: G)
    (auto simp: add_call_def split: if_splits option.splits sum.splits)

lemma project_items_error:
  "project_items B fb items G = Inl err \<Longrightarrow> err = AttributeError"
proof (induction items arbitrary: G)
  case Nil
  then show ?case by simp
next
  case (Cons p items)
  obtain v1 v2 where p: "p = (v1, v2)" by (cases p)
  from Cons p show ?case
    by (auto split: sum.splits dest: project_calls_error)
qed






end
